theory Spec2Isabelle
  imports Main "HOL-Library.Sublist" "HOL-Library.Multiset"
begin

section \<open>Python values read and written by twitter-cleanser.py\<close>

text \<open>
  The program handles tweets as the values \<^verbatim>\<open>json.loads\<close> returns: dictionaries,
  lists, strings, integers, booleans and \<^verbatim>\<open>None\<close>. A dictionary is an association
  list in insertion order, read with \<^const>\<open>map_of\<close>. A \<^verbatim>\<open>str\<close> is the list of
  its characters. JSON floats are left out: the program never computes with a number.
\<close>

datatype json =
    JNull
  | JBool bool
  | JInt int
  | JStr string
  | JArr "json list"
  | JObj "(string \<times> json) list"

text \<open>The exceptions that can leave one of the modelled functions.\<close>

datatype py_error =
    KeyError string
  | TypeError
  | AttributeError
  | ValueError
  | RecursionError
  | UnicodeDecodeError
  | OSError
  | RequestException

text \<open>Python's truth value of an object, as \<^verbatim>\<open>if x:\<close> tests it.\<close>

fun truthy :: "json \<Rightarrow> bool" where
  "truthy JNull = False"
| "truthy (JBool b) = b"
| "truthy (JInt n) = (n \<noteq> 0)"
| "truthy (JStr s) = (s \<noteq> [])"
| "truthy (JArr xs) = (xs \<noteq> [])"
| "truthy (JObj kvs) = (kvs \<noteq> [])"

text \<open>
  \<^verbatim>\<open>x[key]\<close> with a string key: a dictionary looks the key up and raises
  \<^verbatim>\<open>KeyError\<close> when it is absent; every other value raises \<^verbatim>\<open>TypeError\<close>.
\<close>

fun py_getitem :: "json \<Rightarrow> string \<Rightarrow> py_error + json" where
  "py_getitem (JObj kvs) key =
     (case map_of kvs key of None \<Rightarrow> Inl (KeyError key) | Some v \<Rightarrow> Inr v)"
| "py_getitem _ key = Inl TypeError"

text \<open>
  \<^verbatim>\<open>d[key] = v\<close> on a dictionary: an existing key keeps its position, a new key
  goes to the end.
\<close>

fun py_setitem :: "string \<Rightarrow> json \<Rightarrow> (string \<times> json) list \<Rightarrow> (string \<times> json) list" where
  "py_setitem key v [] = [(key, v)]"
| "py_setitem key v (p # ps) =
     (if fst p = key then (key, v) # ps else p # py_setitem key v ps)"

text \<open>
  \<^verbatim>\<open>for x in v\<close>: a list yields its elements, a string its characters, a
  dictionary its keys; \<^verbatim>\<open>None\<close>, booleans and integers raise \<^verbatim>\<open>TypeError\<close>.
\<close>

fun py_iter :: "json \<Rightarrow> py_error + json list" where
  "py_iter (JArr xs) = Inr xs"
| "py_iter (JStr s) = Inr (map (\<lambda>c. JStr [c]) s)"
| "py_iter (JObj kvs) = Inr (map (\<lambda>p. JStr (fst p)) kvs)"
| "py_iter _ = Inl TypeError"

section \<open>Classifying posts\<close>

text \<open>
  \<^verbatim>\<open>
  def is_retweet(tweet_json):
      if tweet_json['retweeted']:
          return True
      if tweet_json['text'].startswith('RT'):
          return True
      return False
  \<close>
  \<^verbatim>\<open>startswith\<close> exists on strings only; on any other value the attribute lookup
  raises \<^verbatim>\<open>AttributeError\<close>.
\<close>

definition is_retweet :: "json \<Rightarrow> py_error + bool" where
  "is_retweet tweet_json =
     (case py_getitem tweet_json ''retweeted'' of
        Inl e \<Rightarrow> Inl e
      | Inr r \<Rightarrow>
          if truthy r then Inr True
          else (case py_getitem tweet_json ''text'' of
                  Inl e \<Rightarrow> Inl e
                | Inr t \<Rightarrow>
                    (case t of
                       JStr s \<Rightarrow> if prefix ''RT'' s then Inr True else Inr False
                     | _ \<Rightarrow> Inl AttributeError)))"

text \<open>
  \<^verbatim>\<open>
  def contains_url(tweet_json):
      if tweet_json['entities']['urls']:
          return True
      return False
  \<close>
\<close>

definition contains_url :: "json \<Rightarrow> py_error + bool" where
  "contains_url tweet_json =
     (case py_getitem tweet_json ''entities'' of
        Inl e \<Rightarrow> Inl e
      | Inr ents \<Rightarrow>
          (case py_getitem ents ''urls'' of
             Inl e \<Rightarrow> Inl e
           | Inr us \<Rightarrow> if truthy us then Inr True else Inr False))"

text \<open>
  \<^verbatim>\<open>
  def filter_retweets(tweets):
      return [tweet for tweet in tweets if not is_retweet(tweet)]
  \<close>
  An exception raised for one tweet ends the comprehension: nothing is returned.
\<close>

fun filter_retweets :: "json list \<Rightarrow> py_error + json list" where
  "filter_retweets [] = Inr []"
| "filter_retweets (tweet # tweets) =
     (case is_retweet tweet of
        Inl e \<Rightarrow> Inl e
      | Inr b \<Rightarrow>
          (case filter_retweets tweets of
             Inl e \<Rightarrow> Inl e
           | Inr rest \<Rightarrow> Inr (if \<not> b then tweet # rest else rest)))"

text \<open>
  The comprehension \<^verbatim>\<open>[url['expanded_url'] for url in tweet['entities']['urls']]\<close>,
  over the elements the iteration yields.
\<close>

fun expanded_urls :: "json list \<Rightarrow> py_error + json list" where
  "expanded_urls [] = Inr []"
| "expanded_urls (url # urls) =
     (case py_getitem url ''expanded_url'' of
        Inl e \<Rightarrow> Inl e
      | Inr v \<Rightarrow>
          (case expanded_urls urls of
             Inl e \<Rightarrow> Inl e
           | Inr vs \<Rightarrow> Inr (v # vs)))"

text \<open>
  The body of \<^verbatim>\<open>if contains_url(tweet):\<close> in \<^verbatim>\<open>filter_tweets_with_urls\<close>:
  \<^verbatim>\<open>
  entry = { key: tweet[key]
              for key in tweet.keys() & {'id', 'created_at', 'text'}}
  entry['urls'] = [url['expanded_url']
                      for url in tweet['entities']['urls']]
  entry['bad'] = False
  \<close>
  Python leaves the iteration order of the key set open; the model takes the three keys
  in the order the tweet has them. Only values that are not dictionaries lack
  \<^verbatim>\<open>keys\<close>.
\<close>

definition new_entry :: "json \<Rightarrow> py_error + json" where
  "new_entry tweet =
     (case tweet of
        JObj kvs \<Rightarrow>
          (let entry = filter (\<lambda>p. fst p \<in> {''id'', ''created_at'', ''text''}) kvs in
           case py_getitem tweet ''entities'' of
             Inl e \<Rightarrow> Inl e
           | Inr ents \<Rightarrow>
               (case py_getitem ents ''urls'' of
                  Inl e \<Rightarrow> Inl e
                | Inr us \<Rightarrow>
                    (case py_iter us of
                       Inl e \<Rightarrow> Inl e
                     | Inr xs \<Rightarrow>
                         (case expanded_urls xs of
                            Inl e \<Rightarrow> Inl e
                          | Inr vs \<Rightarrow>
                              Inr (JObj (py_setitem ''bad'' (JBool False)
                                          (py_setitem ''urls'' (JArr vs) entry)))))))
      | _ \<Rightarrow> Inl AttributeError)"

text \<open>
  \<^verbatim>\<open>
  def filter_tweets_with_urls(tweets):
      tweets_with_urls = []
      for tweet in tweets:
          if contains_url(tweet):
              ...
              tweets_with_urls.append(entry)
      return tweets_with_urls
  \<close>
  The first argument of the loop is \<^verbatim>\<open>tweets_with_urls\<close> so far.
\<close>

fun tweets_with_urls_loop :: "json list \<Rightarrow> json list \<Rightarrow> py_error + json list" where
  "tweets_with_urls_loop tweets_with_urls [] = Inr tweets_with_urls"
| "tweets_with_urls_loop tweets_with_urls (tweet # tweets) =
     (case contains_url tweet of
        Inl e \<Rightarrow> Inl e
      | Inr c \<Rightarrow>
          if c then
            (case new_entry tweet of
               Inl e \<Rightarrow> Inl e
             | Inr entry \<Rightarrow> tweets_with_urls_loop (tweets_with_urls @ [entry]) tweets)
          else tweets_with_urls_loop tweets_with_urls tweets)"

definition filter_tweets_with_urls :: "json list \<Rightarrow> py_error + json list" where
  "filter_tweets_with_urls tweets = tweets_with_urls_loop [] tweets"

text \<open>
  The two filters as the main program composes them:
  \<^verbatim>\<open>filter_tweets_with_urls(filter_retweets(tweets))\<close>.
\<close>

definition filter_pipeline :: "json list \<Rightarrow> py_error + json list" where
  "filter_pipeline tweets =
     (case filter_retweets tweets of
        Inl e \<Rightarrow> Inl e
      | Inr kept \<Rightarrow> filter_tweets_with_urls kept)"

section \<open>Checking the links of one candidate\<close>

text \<open>
  What \<^verbatim>\<open>requests.head(url, timeout=timeout)\<close> does for one URL: it returns a
  response with a status code, or raises \<^verbatim>\<open>requests.exceptions.Timeout\<close>, or
  raises \<^verbatim>\<open>requests.ConnectionError\<close>, or raises an exception of another class
  (an invalid URL, for one). The network is a function from the URL to this outcome,
  fixed for the run; the timeout is part of it.
\<close>

datatype head_outcome =
    Response int
  | Timeout
  | ConnectionError
  | OtherException

definition bad_status :: "int list" where
  "bad_status = [400, 401, 402, 404, 406, 410, 413, 500, 502, 504]"

text \<open>
  The \<^verbatim>\<open>try\<close> statement of the loop body, on the dictionary \<^verbatim>\<open>tweet\<close>:
  \<^verbatim>\<open>
  try:
      r = requests.head(url, timeout=timeout)
      if r.status_code in bad_status:
          tweet['bad'] = True
  except requests.exceptions.Timeout:
      tweet['bad'] = True
  except requests.ConnectionError:
      tweet['bad'] = True
  \<close>
  An exception of any other class is not caught and leaves the function.
\<close>

fun try_head :: "head_outcome \<Rightarrow> (string \<times> json) list \<Rightarrow> py_error + (string \<times> json) list" where
  "try_head (Response status_code) tweet =
     (if status_code \<in> set bad_status
      then Inr (py_setitem ''bad'' (JBool True) tweet)
      else Inr tweet)"
| "try_head Timeout tweet = Inr (py_setitem ''bad'' (JBool True) tweet)"
| "try_head ConnectionError tweet = Inr (py_setitem ''bad'' (JBool True) tweet)"
| "try_head OtherException tweet = Inl RequestException"

text \<open>
  The loop \<^verbatim>\<open>for url in tweet['urls']\<close> with its
  \<^verbatim>\<open>if tweet['bad']: break\<close>. The last argument is the list of the URLs requested
  so far; the function returns it extended, with what the function returns or raises.
\<close>

fun check_loop ::
  "(json \<Rightarrow> head_outcome) \<Rightarrow> json list \<Rightarrow> (string \<times> json) list \<Rightarrow> json list
     \<Rightarrow> json list \<times> (py_error + json)" where
  "check_loop head [] tweet sent = (sent, Inr (JObj tweet))"
| "check_loop head (url # urls) tweet sent =
     (case try_head (head url) tweet of
        Inl e \<Rightarrow> (sent @ [url], Inl e)
      | Inr tweet' \<Rightarrow>
          (case py_getitem (JObj tweet') ''bad'' of
             Inl e \<Rightarrow> (sent @ [url], Inl e)
           | Inr b \<Rightarrow>
               if truthy b then (sent @ [url], Inr (JObj tweet'))
               else check_loop head urls tweet' (sent @ [url])))"

text \<open>
  \<^verbatim>\<open>
  def check_urls_in_tweet(tweet, timeout=2.0):
      bad_status = (400, 401, 402, 404, 406, 410, 413, 500, 502, 504)
      for url in tweet['urls']:
          ...
      return tweet
  \<close>
\<close>

definition check_urls_in_tweet ::
  "(json \<Rightarrow> head_outcome) \<Rightarrow> json \<Rightarrow> json list \<Rightarrow> json list \<times> (py_error + json)" where
  "check_urls_in_tweet head tweet sent =
     (case py_getitem tweet ''urls'' of
        Inl e \<Rightarrow> (sent, Inl e)
      | Inr us \<Rightarrow>
          (case py_iter us of
             Inl e \<Rightarrow> (sent, Inl e)
           | Inr urls \<Rightarrow>
               (case tweet of
                  JObj kvs \<Rightarrow> check_loop head urls kvs sent
                | _ \<Rightarrow> (sent, Inl TypeError))))"

text \<open>
  The selection in the main program:
  \<^verbatim>\<open>bad_tweets = [tweet for tweet in result if tweet['bad']]\<close>.
\<close>

fun bad_tweets :: "json list \<Rightarrow> py_error + json list" where
  "bad_tweets [] = Inr []"
| "bad_tweets (tweet # result) =
     (case py_getitem tweet ''bad'' of
        Inl e \<Rightarrow> Inl e
      | Inr b \<Rightarrow>
          (case bad_tweets result of
             Inl e \<Rightarrow> Inl e
           | Inr rest \<Rightarrow> Inr (if truthy b then tweet # rest else rest)))"

section \<open>Reading the dump\<close>

text \<open>
  \<^verbatim>\<open>print(a, b, ...)\<close> writes its arguments with one space between them.
\<close>

fun py_print :: "string list \<Rightarrow> string" where
  "py_print [] = []"
| "py_print [a] = a"
| "py_print (a # b # rest) = a @ '' '' @ py_print (b # rest)"

text \<open>
  \<^verbatim>\<open>json.loads(line)\<close> returns a value, or raises \<^verbatim>\<open>JSONDecodeError\<close> with a
  message, or raises an exception of another class (\<^verbatim>\<open>RecursionError\<close> on deep
  nesting, \<^verbatim>\<open>ValueError\<close> on an over-long integer); it is a parameter. Reading
  the next line of the file gives the line or raises (\<^verbatim>\<open>UnicodeDecodeError\<close> on
  bytes that are no text). Opening the file gives its lines, or raises
  \<^verbatim>\<open>FileNotFoundError\<close>, or raises another exception (a directory, no
  permission).
\<close>

datatype loads_outcome =
    Parsed json
  | JSONDecodeError string
  | LoadsRaises py_error

datatype read_step =
    Line string
  | ReadRaises py_error

datatype open_outcome =
    FileNotFoundError
  | OpenRaises py_error
  | Opened "read_step list"

text \<open>
  The loop of \<^verbatim>\<open>load_tweets_from_file\<close> sits inside the \<^verbatim>\<open>try\<close>, which
  catches two classes of exception:
  \<^verbatim>\<open>
  tweets = []
  try:
      with open(filename, 'r') as f:
          for line in f:
              tweets.append(json.loads(line))
  except FileNotFoundError:
      print('Cannot find dump file \'', filename, '\'')
  except json.JSONDecodeError as e:
      print('Cannot parse JSON-file: ', str(e))
  return tweets
  \<close>
  The loop gives what was printed, and the list \<^verbatim>\<open>tweets\<close> that is returned or
  the exception that leaves the function.
\<close>

fun load_loop ::
  "(string \<Rightarrow> loads_outcome) \<Rightarrow> read_step list \<Rightarrow> json list
     \<Rightarrow> string list \<times> (py_error + json list)" where
  "load_loop loads [] tweets = ([], Inr tweets)"
| "load_loop loads (ReadRaises e # steps) tweets = ([], Inl e)"
| "load_loop loads (Line line # steps) tweets =
     (case loads line of
        Parsed v \<Rightarrow> load_loop loads steps (tweets @ [v])
      | JSONDecodeError msg \<Rightarrow> ([py_print [''Cannot parse JSON-file: '', msg]], Inr tweets)
      | LoadsRaises e \<Rightarrow> ([], Inl e))"

text \<open>The file system maps a name to what opening and reading that file gives.\<close>

definition load_tweets_from_file ::
  "(string \<Rightarrow> loads_outcome) \<Rightarrow> (string \<Rightarrow> open_outcome) \<Rightarrow> string
     \<Rightarrow> string list \<times> (py_error + json list)" where
  "load_tweets_from_file loads fs filename =
     (case fs filename of
        FileNotFoundError \<Rightarrow>
          ([py_print [''Cannot find dump file '' @ [CHR 0x27], filename, [CHR 0x27]]], Inr [])
      | OpenRaises e \<Rightarrow> ([], Inl e)
      | Opened steps \<Rightarrow> load_loop loads steps [])"

section \<open>The scan in the main program\<close>

text \<open>
  \<^verbatim>\<open>
  argparser.add_argument('--processes', help='number of parallel requests', default=4)
  \<close>
  No \<^verbatim>\<open>type\<close> is given: without the option \<^verbatim>\<open>args.processes\<close> is the integer
  4, with the option it is the string from the command line.
\<close>

datatype processes_arg = IntArg int | StrArg string

definition args_processes :: "string option \<Rightarrow> processes_arg" where
  "args_processes given = (case given of None \<Rightarrow> IntArg 4 | Some s \<Rightarrow> StrArg s)"

text \<open>
  \<^verbatim>\<open>pool = mp.Pool(processes=args.processes)\<close>. The library compares
  \<^verbatim>\<open>processes < 1\<close>: a string against an integer raises \<^verbatim>\<open>TypeError\<close>, an
  integer below 1 raises \<^verbatim>\<open>ValueError\<close>, and otherwise the pool has that many
  workers.
\<close>

fun Pool :: "processes_arg \<Rightarrow> py_error + nat" where
  "Pool (IntArg n) = (if n < 1 then Inl ValueError else Inr (nat n))"
| "Pool (StrArg s) = Inl TypeError"

text \<open>
  \<^verbatim>\<open>result = pool.imap_unordered(check_urls_in_tweet, ...)\<close> yields, for every
  candidate once, what \<^verbatim>\<open>check_urls_in_tweet\<close> returns or raises for it, in the
  order in which the workers finish: any order. The number of workers is not part of
  what is yielded.
\<close>

definition imap_unordered ::
  "(json \<Rightarrow> head_outcome) \<Rightarrow> nat \<Rightarrow> json list \<Rightarrow> (py_error + json) list \<Rightarrow> bool" where
  "imap_unordered head workers cands result =
     (mset result = mset (map (\<lambda>c. snd (check_urls_in_tweet head c [])) cands))"

text \<open>
  \<^verbatim>\<open>bad_tweets = [tweet for tweet in result if tweet['bad']]\<close> over what the pool
  yields: an exception raised in a worker is raised again when its turn comes.
\<close>

fun bad_tweets_of :: "(py_error + json) list \<Rightarrow> py_error + json list" where
  "bad_tweets_of [] = Inr []"
| "bad_tweets_of (Inl e # result) = Inl e"
| "bad_tweets_of (Inr tweet # result) =
     (case py_getitem tweet ''bad'' of
        Inl e \<Rightarrow> Inl e
      | Inr b \<Rightarrow>
          (case bad_tweets_of result of
             Inl e \<Rightarrow> Inl e
           | Inr rest \<Rightarrow> Inr (if truthy b then tweet # rest else rest)))"

text \<open>
  The three statements in the order of the main program, given the value of the option
  \<^verbatim>\<open>--processes\<close> (if any) and what the pool, once made, yields: the pool is made
  first, and an exception there ends the program before any request is sent.
\<close>

definition scan :: "string option \<Rightarrow> (py_error + json) list \<Rightarrow> py_error + json list" where
  "scan given result =
     (case Pool (args_processes given) of
        Inl e \<Rightarrow> Inl e
      | Inr workers \<Rightarrow> bad_tweets_of result)"

section \<open>The contracts of the specification\<close>

text \<open>
  The definitions of this section follow the wording of the specification, not the
  code; the theorems below compare the two. A well-formed post has a dictionary
  \<^verbatim>\<open>entities\<close> whose \<^verbatim>\<open>urls\<close> is a list of dictionaries with an
  \<^verbatim>\<open>expanded_url\<close> each.
\<close>

fun entities_urls :: "json \<Rightarrow> json list option" where
  "entities_urls (JObj kvs) =
     (case map_of kvs ''entities'' of
        Some (JObj es) \<Rightarrow> (case map_of es ''urls'' of Some (JArr us) \<Rightarrow> Some us | _ \<Rightarrow> None)
      | _ \<Rightarrow> None)"
| "entities_urls _ = None"

fun link_target :: "json \<Rightarrow> json option" where
  "link_target (JObj kvs) = map_of kvs ''expanded_url''"
| "link_target _ = None"

definition well_formed_post :: "json \<Rightarrow> bool" where
  "well_formed_post p =
     (case entities_urls p of
        None \<Rightarrow> False
      | Some us \<Rightarrow> list_all (\<lambda>u. link_target u \<noteq> None) us)"

text \<open>\<^verbatim>\<open>hasLinks(post)\<close>: true iff \<^verbatim>\<open>post.entities.urls\<close> is non-empty.\<close>

definition hasLinks_spec :: "json \<Rightarrow> bool" where
  "hasLinks_spec p = (case entities_urls p of None \<Rightarrow> False | Some us \<Rightarrow> us \<noteq> [])"

text \<open>
  \<^verbatim>\<open>toCandidate(post)\<close>: projects \<^verbatim>\<open>id, created_at, text\<close>, flattens
  \<^verbatim>\<open>entities.urls[*].expanded_url\<close> in source order and initializes
  \<^verbatim>\<open>bad = false\<close>. The candidate is given as the map from its keys to its values.
\<close>

definition toCandidate_spec :: "json \<Rightarrow> string \<Rightarrow> json option" where
  "toCandidate_spec p =
     (case p of
        JObj kvs \<Rightarrow>
          (case entities_urls p of
             Some us \<Rightarrow>
               (map_of kvs |` {''id'', ''created_at'', ''text''})
                 (''urls'' \<mapsto> JArr (List.map_filter link_target us),
                  ''bad'' \<mapsto> JBool False)
           | None \<Rightarrow> Map.empty)
      | _ \<Rightarrow> Map.empty)"

text \<open>
  \<^verbatim>\<open>probe(url, timeout) -> Alive | Dead\<close>: Dead when the status code is in the
  blocklist, or the request exceeds the timeout, or a connection-level failure occurs;
  any other outcome is Alive.
\<close>

datatype probe_result = Alive | Dead

definition UrlProbe_spec :: "head_outcome \<Rightarrow> probe_result" where
  "UrlProbe_spec outcome =
     (case outcome of
        Response status \<Rightarrow>
          if status \<in> {400, 401, 402, 404, 406, 410, 413, 500, 502, 504} then Dead else Alive
      | Timeout \<Rightarrow> Dead
      | ConnectionError \<Rightarrow> Dead
      | OtherException \<Rightarrow> Alive)"

text \<open>The invariant of a candidate: its \<^verbatim>\<open>urls\<close> is a list with an element.\<close>

definition nonempty_urls :: "json \<Rightarrow> bool" where
  "nonempty_urls c = (case py_getitem c ''urls'' of Inr (JArr us) \<Rightarrow> us \<noteq> [] | _ \<Rightarrow> False)"

text \<open>
  A post with the fields the filters read: \<^verbatim>\<open>retweeted\<close> a boolean,
  \<^verbatim>\<open>text\<close> a string, and the links of a well-formed post.
\<close>

definition post_fields :: "json \<Rightarrow> bool" where
  "post_fields p =
     (case p of
        JObj kvs \<Rightarrow>
          (case map_of kvs ''retweeted'' of
             Some (JBool r) \<Rightarrow>
               (case map_of kvs ''text'' of Some (JStr s) \<Rightarrow> well_formed_post p | _ \<Rightarrow> False)
           | _ \<Rightarrow> False)
      | _ \<Rightarrow> False)"

text \<open>
  The posts of a list that pass both filters: not a retweet, and with links. The
  filters applied a second time are applied to these.
\<close>

definition kept_posts :: "json list \<Rightarrow> json list" where
  "kept_posts tweets =
     filter (\<lambda>t. is_retweet t = Inr False \<and> contains_url t = Inr True) tweets"

text \<open>
  A well-formed line of the dump is one that is read and parsed to a value; the other
  steps are a malformed line, or an exception that is not caught.
\<close>

fun line_value :: "(string \<Rightarrow> loads_outcome) \<Rightarrow> read_step \<Rightarrow> json option" where
  "line_value loads (Line l) = (case loads l of Parsed v \<Rightarrow> Some v | _ \<Rightarrow> None)"
| "line_value loads (ReadRaises e) = None"

fun step_raises :: "(string \<Rightarrow> loads_outcome) \<Rightarrow> read_step \<Rightarrow> py_error option" where
  "step_raises loads (Line l) = (case loads l of LoadsRaises e \<Rightarrow> Some e | _ \<Rightarrow> None)"
| "step_raises loads (ReadRaises e) = Some e"

text \<open>
  What the selection reads of one yielded result: whether it is a tweet with a key
  \<^verbatim>\<open>bad\<close>, and whether that is true.
\<close>

definition is_bad :: "json \<Rightarrow> bool" where
  "is_bad t = (case py_getitem t ''bad'' of Inr b \<Rightarrow> truthy b | Inl e \<Rightarrow> False)"

definition yields_tweet :: "py_error + json \<Rightarrow> bool" where
  "yields_tweet x = (case x of Inr t \<Rightarrow> \<not> isl (py_getitem t ''bad'') | Inl e \<Rightarrow> False)"

section \<open>Example inputs\<close>

definition post_link :: json where
  "post_link = JObj [(''id'', JInt 1), (''created_at'', JStr ''Mon Jan 05''),
     (''text'', JStr ''check this http://x''), (''retweeted'', JBool False),
     (''entities'', JObj [(''urls'', JArr [JObj [(''expanded_url'', JStr ''http://dead.example'')]])])]"

definition post_plain :: json where
  "post_plain = JObj [(''id'', JInt 2), (''created_at'', JStr ''Tue Jan 06''),
     (''text'', JStr ''no link here''), (''retweeted'', JBool False),
     (''entities'', JObj [(''urls'', JArr [])])]"

definition post_quoted :: json where
  "post_quoted = JObj [(''id'', JInt 4), (''created_at'', JStr ''Thu Jan 08''),
     (''text'', JStr ''RT @a hi http://y''), (''retweeted'', JBool False),
     (''entities'', JObj [(''urls'', JArr [JObj [(''expanded_url'', JStr ''http://alive.example'')]])])]"

definition candidate_link :: "(string \<times> json) list" where
  "candidate_link = [(''id'', JInt 1), (''created_at'', JStr ''Mon Jan 05''),
     (''text'', JStr ''check this http://x''),
     (''urls'', JArr [JStr ''http://dead.example'']), (''bad'', JBool False)]"

definition candidate_three :: "(string \<times> json) list" where
  "candidate_three = [(''id'', JInt 3), (''created_at'', JStr ''Wed Jan 07''),
     (''text'', JStr ''three links''),
     (''urls'', JArr [JStr ''http://alive.example'', JStr ''http://slow.example'',
                      JStr ''http://dead.example'']),
     (''bad'', JBool False)]"

definition candidate_marked :: "(string \<times> json) list" where
  "candidate_marked = [(''id'', JInt 5), (''created_at'', JStr ''Fri Jan 09''),
     (''text'', JStr ''marked before''),
     (''urls'', JArr [JStr ''http://alive.example'', JStr ''http://dead.example'']),
     (''bad'', JBool True)]"

text \<open>
  A network: one URL answers 200, one times out, one answers 404, one refuses the
  connection; \<^verbatim>\<open>requests\<close> rejects everything else as an invalid URL.
\<close>

definition example_net :: "json \<Rightarrow> head_outcome" where
  "example_net url =
     (if url = JStr ''http://alive.example'' then Response 200
      else if url = JStr ''http://slow.example'' then Timeout
      else if url = JStr ''http://dead.example'' then Response 404
      else if url = JStr ''http://down.example'' then ConnectionError
      else OtherException)"

definition candidate_invalid_first :: "(string \<times> json) list" where
  "candidate_invalid_first = [(''id'', JInt 6), (''created_at'', JStr ''Sat Jan 10''),
     (''text'', JStr ''a broken and a dead link''),
     (''urls'', JArr [JStr ''example.com/page'', JStr ''http://dead.example'']),
     (''bad'', JBool False)]"

definition candidate_invalid_second :: "(string \<times> json) list" where
  "candidate_invalid_second = [(''id'', JInt 7), (''created_at'', JStr ''Sun Jan 11''),
     (''text'', JStr ''a live and a broken link''),
     (''urls'', JArr [JStr ''http://alive.example'', JStr ''example.com/page'',
                      JStr ''http://dead.example'']),
     (''bad'', JBool False)]"

text \<open>
  A parser for four kinds of line, a dump of three lines with a malformed second line,
  and a dump whose second line makes the parser raise \<^verbatim>\<open>RecursionError\<close>.
\<close>

definition example_loads :: "string \<Rightarrow> loads_outcome" where
  "example_loads line =
     (if line = ''{}'' then Parsed (JObj [])
      else if line = ''[]'' then Parsed (JArr [])
      else if line = ''[[[[[[[['' then LoadsRaises RecursionError
      else JSONDecodeError ''Expecting value'')"

definition example_fs :: "string \<Rightarrow> open_outcome" where
  "example_fs filename =
     (if filename = ''tweet_dump.json'' then Opened [Line ''{}'', Line ''not json'', Line ''[]'']
      else if filename = ''deep.json'' then Opened [Line ''{}'', Line ''[[[[[[[['', Line ''[]'']
      else FileNotFoundError)"

section \<open>Retweet classification\<close>

text \<open>
  C3. For every post whose \<^verbatim>\<open>retweeted\<close> field is a boolean and whose
  \<^verbatim>\<open>text\<close> field is a string, \<^verbatim>\<open>is_retweet\<close> returns true exactly when
  \<^verbatim>\<open>retweeted\<close> is true or the text begins with the two characters \<^verbatim>\<open>RT\<close>,
  compared as they are (no case folding, no trimming), and false otherwise.
\<close>

theorem is_retweet_iff:
  assumes "map_of kvs ''retweeted'' = Some (JBool r)"
    and "map_of kvs ''text'' = Some (JStr s)"
  shows "is_retweet (JObj kvs) = Inr (r \<or> prefix ''RT'' s)"
  using assms by (simp add: is_retweet_def)

theorem is_retweet_iff_witness:
  "is_retweet (JObj [(''retweeted'', JBool False), (''text'', JStr ''RT @a hi'')]) = Inr True
   \<and> is_retweet (JObj [(''retweeted'', JBool False), (''text'', JStr '' RT @a hi'')]) = Inr False
   \<and> is_retweet (JObj [(''retweeted'', JBool False), (''text'', JStr ''rt @a hi'')]) = Inr False
   \<and> is_retweet (JObj [(''retweeted'', JBool True), (''text'', JStr ''hello'')]) = Inr True"
  using is_retweet_iff [of "[(''retweeted'', JBool False), (''text'', JStr ''RT @a hi'')]" False "''RT @a hi''"]
    is_retweet_iff [of "[(''retweeted'', JBool False), (''text'', JStr '' RT @a hi'')]" False "'' RT @a hi''"]
    is_retweet_iff [of "[(''retweeted'', JBool False), (''text'', JStr ''rt @a hi'')]" False "''rt @a hi''"]
    is_retweet_iff [of "[(''retweeted'', JBool True), (''text'', JStr ''hello'')]" True "''hello''"]
  by simp

section \<open>Dictionary updates\<close>

lemma map_of_py_setitem: "map_of (py_setitem k v al) = (map_of al)(k \<mapsto> v)"
  by (induction al) (auto simp: fun_eq_iff)

lemma keys_py_setitem: "fst ` set (py_setitem k v al) = insert k (fst ` set al)"
  by (induction al) auto

lemma order_py_setitem: "map_of al k = Some w \<Longrightarrow> map fst (py_setitem k v al) = map fst al"
  by (induction al) (auto split: if_splits)

lemma py_setitem_same: "map_of al k = Some v \<Longrightarrow> py_setitem k v al = al"
  by (induction al) (auto split: if_splits)

lemma map_of_filter_keys:
  "map_of (filter (\<lambda>p. fst p \<in> S) kvs) = map_of kvs |` S"
  by (induction kvs) (auto simp: fun_eq_iff restrict_map_def)

section \<open>From posts to candidates\<close>

lemma expanded_urls_targets:
  "list_all (\<lambda>u. link_target u \<noteq> None) us \<Longrightarrow>
   expanded_urls us = Inr (List.map_filter link_target us)"
proof (induction us)
  case Nil
  then show ?case by (simp add: List.map_filter_simps)
next
  case (Cons u us)
  then obtain kvs v where "u = JObj kvs" "map_of kvs ''expanded_url'' = Some v"
    by (cases u) auto
  with Cons show ?case by (simp add: List.map_filter_simps)
qed

lemma contains_url_well_formed:
  "well_formed_post p \<Longrightarrow> contains_url p = Inr (hasLinks_spec p)"
  by (cases p)
    (auto simp: well_formed_post_def hasLinks_spec_def contains_url_def
      split: option.splits json.splits)

lemma new_entry_well_formed:
  assumes "well_formed_post p"
  shows "\<exists>kvs. new_entry p = Inr (JObj kvs) \<and> map_of kvs = toCandidate_spec p"
proof -
  from assms obtain kvs es us where p: "p = JObj kvs"
    and es: "map_of kvs ''entities'' = Some (JObj es)"
    and us: "map_of es ''urls'' = Some (JArr us)"
    and targets: "list_all (\<lambda>u. link_target u \<noteq> None) us"
    by (cases p) (auto simp: well_formed_post_def split: option.splits json.splits)
  have "map_of (filter (\<lambda>p. fst p \<in> {''id'', ''created_at'', ''text''}) kvs)
          = map_of kvs |` {''id'', ''created_at'', ''text''}"
    by (rule map_of_filter_keys)
  with p es us targets show ?thesis
    by (simp add: new_entry_def toCandidate_spec_def expanded_urls_targets map_of_py_setitem)
qed

lemma tweets_with_urls_loop_well_formed:
  assumes "\<forall>p\<in>set tweets. well_formed_post p"
  shows "\<exists>cands. tweets_with_urls_loop acc tweets = Inr (acc @ cands) \<and>
           list_all2 (\<lambda>c p. \<exists>kvs. c = JObj kvs \<and> map_of kvs = toCandidate_spec p)
             cands (filter hasLinks_spec tweets)"
  using assms
proof (induction tweets arbitrary: acc)
  case Nil
  then show ?case by simp
next
  case (Cons p tweets)
  then have wf: "well_formed_post p" and rest: "\<forall>p\<in>set tweets. well_formed_post p"
    by simp_all
  show ?case
  proof (cases "hasLinks_spec p")
    case False
    with Cons.IH [OF rest, of acc] wf show ?thesis
      by (simp add: contains_url_well_formed)
  next
    case True
    from new_entry_well_formed [OF wf] obtain kvs
      where e: "new_entry p = Inr (JObj kvs)" "map_of kvs = toCandidate_spec p" by blast
    from Cons.IH [OF rest, of "acc @ [JObj kvs]"] obtain cands
      where "tweets_with_urls_loop (acc @ [JObj kvs]) tweets = Inr ((acc @ [JObj kvs]) @ cands)"
        and "list_all2 (\<lambda>c p. \<exists>kvs. c = JObj kvs \<and> map_of kvs = toCandidate_spec p)
             cands (filter hasLinks_spec tweets)" by blast
    with True wf e show ?thesis
      by (simp add: contains_url_well_formed)
  qed
qed

text \<open>
  C4. For every list of well-formed posts, \<^verbatim>\<open>filter_tweets_with_urls\<close> returns one
  candidate for each post whose \<^verbatim>\<open>entities.urls\<close> is non-empty, in the order of the
  posts, and no other. The candidate of a post has the post's \<^verbatim>\<open>id\<close>,
  \<^verbatim>\<open>created_at\<close> and \<^verbatim>\<open>text\<close>, has as \<^verbatim>\<open>urls\<close> the list of the
  \<^verbatim>\<open>expanded_url\<close> of each entry in source order, has \<^verbatim>\<open>bad\<close> false, and has
  no further key.
\<close>

theorem filter_tweets_with_urls_candidates:
  assumes "\<forall>p\<in>set tweets. well_formed_post p"
  shows "\<exists>cands. filter_tweets_with_urls tweets = Inr cands \<and>
           list_all2 (\<lambda>c p. \<exists>kvs. c = JObj kvs \<and> map_of kvs = toCandidate_spec p)
             cands (filter hasLinks_spec tweets)"
  using tweets_with_urls_loop_well_formed [OF assms, of "[]"]
  by (simp add: filter_tweets_with_urls_def)

theorem filter_tweets_with_urls_candidates_witness:
  "well_formed_post post_link \<and> well_formed_post post_plain
   \<and> filter hasLinks_spec [post_link, post_plain] = [post_link]
   \<and> filter_tweets_with_urls [post_link, post_plain] = Inr [JObj candidate_link]
   \<and> map_of candidate_link = toCandidate_spec post_link"
  using filter_tweets_with_urls_candidates [of "[post_link, post_plain]"]
  by (simp add: post_link_def post_plain_def candidate_link_def well_formed_post_def
      hasLinks_spec_def toCandidate_spec_def filter_tweets_with_urls_def contains_url_def
      new_entry_def List.map_filter_simps fun_eq_iff restrict_map_def)

section \<open>What every candidate carries\<close>

lemma length_expanded_urls: "expanded_urls xs = Inr vs \<Longrightarrow> length vs = length xs"
  by (induction xs arbitrary: vs) (auto split: sum.splits)

lemma py_iter_truthy: "py_iter us = Inr xs \<Longrightarrow> truthy us \<Longrightarrow> xs \<noteq> []"
  by (cases us) auto

lemma new_entry_nonempty_urls:
  assumes "contains_url tweet = Inr True" and "new_entry tweet = Inr entry"
  shows "nonempty_urls entry"
proof -
  from assms obtain kvs ents us xs vs where "tweet = JObj kvs"
    and "py_getitem tweet ''entities'' = Inr ents" and "py_getitem ents ''urls'' = Inr us"
    and t: "truthy us" and it: "py_iter us = Inr xs" and ex: "expanded_urls xs = Inr vs"
    and e: "entry = JObj (py_setitem ''bad'' (JBool False)
              (py_setitem ''urls'' (JArr vs)
                (filter (\<lambda>p. fst p \<in> {''id'', ''created_at'', ''text''}) kvs)))"
    by (cases tweet)
      (auto simp: new_entry_def contains_url_def Let_def split: sum.splits if_splits)
  from py_iter_truthy [OF it t] length_expanded_urls [OF ex] have "vs \<noteq> []" by auto
  with e show ?thesis
    by (simp add: nonempty_urls_def map_of_py_setitem)
qed

text \<open>A property of every new entry holds for every element of the returned list.\<close>

lemma tweets_with_urls_loop_inv:
  assumes "tweets_with_urls_loop acc tweets = Inr cands" and "\<forall>c\<in>set acc. P c"
    and step: "\<And>tweet entry. contains_url tweet = Inr True \<Longrightarrow> new_entry tweet = Inr entry
                 \<Longrightarrow> P entry"
  shows "\<forall>c\<in>set cands. P c"
  using assms(1,2)
proof (induction tweets arbitrary: acc)
  case Nil
  then show ?case by simp
next
  case (Cons tweet tweets)
  show ?case
  proof (cases "contains_url tweet")
    case (Inl e)
    with Cons.prems show ?thesis by simp
  next
    case (Inr c)
    show ?thesis
    proof (cases c)
      case False
      with Inr Cons show ?thesis by simp
    next
      case True
      with Inr Cons.prems obtain entry where e: "new_entry tweet = Inr entry"
        and l: "tweets_with_urls_loop (acc @ [entry]) tweets = Inr cands"
        by (auto split: sum.splits)
      from step [OF _ e] Inr True have "P entry" by simp
      with Cons.prems have "\<forall>c\<in>set (acc @ [entry]). P c" by simp
      from Cons.IH [OF l this] show ?thesis .
    qed
  qed
qed

lemma filter_tweets_with_urls_nonempty:
  "filter_tweets_with_urls tweets = Inr cands \<Longrightarrow> \<forall>c\<in>set cands. nonempty_urls c"
  unfolding filter_tweets_with_urls_def
  by (rule tweets_with_urls_loop_inv [where acc = "[]"]) (auto intro: new_entry_nonempty_urls)

section \<open>Repeating the filters\<close>

lemma filter_retweets_eq:
  "filter_retweets tweets = Inr kept \<Longrightarrow> kept = filter (\<lambda>t. is_retweet t = Inr False) tweets"
  by (induction tweets arbitrary: kept) (auto split: sum.splits if_splits)

lemma filter_retweets_fixed:
  "\<forall>t\<in>set kept. is_retweet t = Inr False \<Longrightarrow> filter_retweets kept = Inr kept"
  by (induction kept) auto

lemma tweets_with_urls_loop_links:
  "tweets_with_urls_loop acc tweets = Inr cands \<Longrightarrow>
   tweets_with_urls_loop acc (filter (\<lambda>t. contains_url t = Inr True) tweets) = Inr cands"
proof (induction tweets arbitrary: acc)
  case Nil
  then show ?case by simp
next
  case (Cons t tweets)
  then show ?case
    by (cases "contains_url t") (auto split: sum.splits if_splits)
qed

lemma is_retweet_post_fields: "post_fields p \<Longrightarrow> \<exists>b. is_retweet p = Inr b"
  by (cases p) (auto simp: post_fields_def is_retweet_def split: option.splits json.splits)

lemma filter_retweets_returns:
  "\<forall>p\<in>set tweets. post_fields p \<Longrightarrow>
   \<exists>kept. filter_retweets tweets = Inr kept \<and> set kept \<subseteq> set tweets"
proof (induction tweets)
  case Nil
  then show ?case by simp
next
  case (Cons p tweets)
  then obtain kept where "filter_retweets tweets = Inr kept" "set kept \<subseteq> set tweets"
    by auto
  moreover from Cons.prems is_retweet_post_fields [of p] obtain b where "is_retweet p = Inr b"
    by auto
  ultimately show ?case by auto
qed

lemma post_fields_well_formed: "post_fields p \<Longrightarrow> well_formed_post p"
  by (cases p) (auto simp: post_fields_def split: option.splits json.splits)

text \<open>
  C7. The posts that pass both filters are the posts the composed step keeps; filtering
  a second time means filtering these. For every list of posts on which the composed
  step \<^verbatim>\<open>filter_tweets_with_urls(filter_retweets(tweets))\<close> returns, the step
  applied to the kept posts returns the same candidates, and the kept posts of the
  kept posts are the kept posts. Each filter alone is idempotent as well:
  \<^verbatim>\<open>filter_retweets\<close> returns its own result unchanged, and
  \<^verbatim>\<open>filter_tweets_with_urls\<close> on the posts with links returns the same
  candidates. The step does return on every list of posts that have the fields it
  reads.
\<close>

theorem filter_pipeline_idempotent:
  "(\<forall>cands. filter_pipeline tweets = Inr cands \<longrightarrow>
      filter_pipeline (kept_posts tweets) = Inr cands
      \<and> kept_posts (kept_posts tweets) = kept_posts tweets
      \<and> (\<exists>kept. filter_retweets tweets = Inr kept \<and> filter_retweets kept = Inr kept
            \<and> filter_pipeline kept = Inr cands
            \<and> filter_tweets_with_urls (filter (\<lambda>t. contains_url t = Inr True) kept)
                = Inr cands))
   \<and> ((\<forall>p\<in>set tweets. post_fields p) \<longrightarrow> (\<exists>cands. filter_pipeline tweets = Inr cands))"
proof (intro conjI allI impI)
  fix cands
  assume "filter_pipeline tweets = Inr cands"
  then obtain kept where k: "filter_retweets tweets = Inr kept"
    and c: "filter_tweets_with_urls kept = Inr cands"
    by (auto simp: filter_pipeline_def split: sum.splits)
  from filter_retweets_eq [OF k]
  have kept: "kept = filter (\<lambda>t. is_retweet t = Inr False) tweets" .
  then have fixed: "filter_retweets kept = Inr kept"
    by (intro filter_retweets_fixed) simp
  from c have links: "filter_tweets_with_urls (filter (\<lambda>t. contains_url t = Inr True) kept)
      = Inr cands"
    unfolding filter_tweets_with_urls_def by (rule tweets_with_urls_loop_links)
  have kp: "kept_posts tweets = filter (\<lambda>t. contains_url t = Inr True) kept"
    by (simp add: kept_posts_def kept conj_commute)
  have "filter_retweets (kept_posts tweets) = Inr (kept_posts tweets)"
    by (intro filter_retweets_fixed) (simp add: kept_posts_def)
  with links kp show "filter_pipeline (kept_posts tweets) = Inr cands"
    by (simp add: filter_pipeline_def)
  show "kept_posts (kept_posts tweets) = kept_posts tweets"
    by (simp add: kept_posts_def)
  from k fixed c links
  show "\<exists>kept. filter_retweets tweets = Inr kept \<and> filter_retweets kept = Inr kept
            \<and> filter_pipeline kept = Inr cands
            \<and> filter_tweets_with_urls (filter (\<lambda>t. contains_url t = Inr True) kept)
                = Inr cands"
    by (simp add: filter_pipeline_def)
next
  assume pf: "\<forall>p\<in>set tweets. post_fields p"
  from filter_retweets_returns [OF pf] obtain kept
    where k: "filter_retweets tweets = Inr kept" "set kept \<subseteq> set tweets" by blast
  with pf have "\<forall>p\<in>set kept. well_formed_post p"
    by (auto intro: post_fields_well_formed)
  from tweets_with_urls_loop_well_formed [OF this, of "[]"] k
  show "\<exists>cands. filter_pipeline tweets = Inr cands"
    by (auto simp: filter_pipeline_def filter_tweets_with_urls_def)
qed

theorem filter_pipeline_idempotent_witness:
  "post_fields post_quoted \<and> post_fields post_plain \<and> post_fields post_link
   \<and> filter_pipeline [post_quoted, post_plain, post_link] = Inr [JObj candidate_link]
   \<and> kept_posts [post_quoted, post_plain, post_link] = [post_link]
   \<and> filter_pipeline [post_link] = Inr [JObj candidate_link]
   \<and> filter_retweets [post_quoted, post_plain, post_link] = Inr [post_plain, post_link]
   \<and> filter_retweets [post_plain, post_link] = Inr [post_plain, post_link]"
proof -
  have once: "filter_pipeline [post_quoted, post_plain, post_link] = Inr [JObj candidate_link]"
    by (simp add: filter_pipeline_def post_quoted_def post_plain_def post_link_def
        candidate_link_def is_retweet_def filter_tweets_with_urls_def contains_url_def
        new_entry_def)
  have kp: "kept_posts [post_quoted, post_plain, post_link] = [post_link]"
    by (simp add: kept_posts_def post_quoted_def post_plain_def post_link_def
        is_retweet_def contains_url_def)
  have pf: "post_fields post_quoted" "post_fields post_plain" "post_fields post_link"
    by (simp_all add: post_fields_def well_formed_post_def post_quoted_def post_plain_def
        post_link_def)
  have fr: "filter_retweets [post_quoted, post_plain, post_link] = Inr [post_plain, post_link]"
    "filter_retweets [post_plain, post_link] = Inr [post_plain, post_link]"
    by (simp_all add: post_quoted_def post_plain_def post_link_def is_retweet_def)
  from filter_pipeline_idempotent [of "[post_quoted, post_plain, post_link]", THEN conjunct1,
      rule_format, OF once] kp
  have "filter_pipeline [post_link] = Inr [JObj candidate_link]" by simp
  with once kp pf fr show ?thesis by simp
qed

section \<open>One request\<close>

lemma try_head_classified:
  "outcome \<noteq> OtherException \<Longrightarrow>
   try_head outcome kvs =
     Inr (if UrlProbe_spec outcome = Dead then py_setitem ''bad'' (JBool True) kvs else kvs)"
  by (cases outcome) (auto simp: UrlProbe_spec_def bad_status_def)

lemma try_head_frame:
  "try_head outcome kvs = Inr kvs' \<Longrightarrow>
   (\<forall>k. k \<noteq> ''bad'' \<longrightarrow> map_of kvs' k = map_of kvs k)
   \<and> (map_of kvs ''bad'' \<noteq> None \<longrightarrow> map fst kvs' = map fst kvs \<and> map_of kvs' ''bad'' \<noteq> None)"
  by (cases outcome) (auto simp: map_of_py_setitem order_py_setitem split: if_splits)

section \<open>The loop over the URLs of a candidate\<close>

lemma check_loop_alive_prefix:
  assumes "map_of kvs ''bad'' = Some (JBool False)"
    and "\<forall>v\<in>set pre. UrlProbe_spec (head v) = Alive \<and> head v \<noteq> OtherException"
  shows "check_loop head (pre @ rest) kvs sent = check_loop head rest kvs (sent @ pre)"
  using assms
proof (induction pre arbitrary: sent)
  case Nil
  then show ?case by simp
next
  case (Cons v pre)
  then have "try_head (head v) kvs = Inr kvs"
    by (simp add: try_head_classified)
  with Cons show ?case by simp
qed

lemma check_loop_raises:
  assumes "map_of kvs ''bad'' = Some (JBool False)"
    and "\<forall>v\<in>set pre. UrlProbe_spec (head v) = Alive \<and> head v \<noteq> OtherException"
    and "head u = OtherException"
  shows "check_loop head (pre @ u # post) kvs sent = (sent @ pre @ [u], Inl RequestException)"
  using check_loop_alive_prefix [OF assms(1,2), of "u # post" sent] assms(3)
  by simp

lemma check_loop_reached:
  assumes "map_of kvs ''bad'' = Some (JBool False)"
    and "\<forall>u\<in>set (takeWhile (\<lambda>u. UrlProbe_spec (head u) = Alive) us).
           head u \<noteq> OtherException"
  shows "check_loop head us kvs sent =
     (sent @ takeWhile (\<lambda>u. UrlProbe_spec (head u) = Alive) us
           @ take 1 (dropWhile (\<lambda>u. UrlProbe_spec (head u) = Alive) us),
      Inr (JObj (if \<exists>u\<in>set us. UrlProbe_spec (head u) = Dead
                 then py_setitem ''bad'' (JBool True) kvs else kvs)))"
  using assms
proof (induction us arbitrary: sent)
  case Nil
  then show ?case by simp
next
  case (Cons u us)
  show ?case
  proof (cases "UrlProbe_spec (head u)")
    case Alive
    with Cons.prems have "head u \<noteq> OtherException" by simp
    with Alive Cons show ?thesis
      by (simp add: try_head_classified)
  next
    case Dead
    then have "head u \<noteq> OtherException" by (auto simp: UrlProbe_spec_def)
    with Dead Cons show ?thesis
      by (simp add: try_head_classified map_of_py_setitem)
  qed
qed

text \<open>
  C2, as the code has it. One execution of the \<^verbatim>\<open>try\<close> statement marks the tweet
  bad (the URL is Dead) iff the response status is one of 400, 401, 402, 404, 406, 410,
  413, 500, 502, 504, or the request times out, or a connection error occurs. Every
  other response status (200, 301, 403, ...) leaves the tweet as it is (the URL is
  Alive). An exception of any other class is not caught and the URL is not classified:
  when the loop of \<^verbatim>\<open>check_urls_in_tweet\<close> reaches such a URL (\<^verbatim>\<open>bad\<close> false
  on entry, every URL before it answered Alive), the exception leaves the function
  after the request for that URL, no later URL is requested and no candidate is
  returned.
\<close>

theorem try_head_verdict:
  "try_head outcome kvs =
     (if outcome = OtherException then Inl RequestException
      else Inr (if UrlProbe_spec outcome = Dead
                then py_setitem ''bad'' (JBool True) kvs else kvs))
   \<and> (\<forall>us pre u post. map_of kvs ''bad'' = Some (JBool False) \<longrightarrow>
          map_of kvs ''urls'' = Some (JArr us) \<longrightarrow> us = pre @ u # post \<longrightarrow>
          (\<forall>v\<in>set pre. UrlProbe_spec (head v) = Alive \<and> head v \<noteq> OtherException) \<longrightarrow>
          head u = OtherException \<longrightarrow>
          check_urls_in_tweet head (JObj kvs) sent = (sent @ pre @ [u], Inl RequestException))"
proof (intro conjI allI impI)
  show "try_head outcome kvs =
     (if outcome = OtherException then Inl RequestException
      else Inr (if UrlProbe_spec outcome = Dead
                then py_setitem ''bad'' (JBool True) kvs else kvs))"
    by (cases outcome) (auto simp: UrlProbe_spec_def bad_status_def)
next
  fix us pre u post
  assume b: "map_of kvs ''bad'' = Some (JBool False)"
    and "map_of kvs ''urls'' = Some (JArr us)" "us = pre @ u # post"
    and "\<forall>v\<in>set pre. UrlProbe_spec (head v) = Alive \<and> head v \<noteq> OtherException"
    and "head u = OtherException"
  with check_loop_raises [OF b, of pre head u post sent]
  show "check_urls_in_tweet head (JObj kvs) sent = (sent @ pre @ [u], Inl RequestException)"
    by (simp add: check_urls_in_tweet_def)
qed

theorem try_head_verdict_witness:
  "try_head (Response 404) candidate_link = Inr (py_setitem ''bad'' (JBool True) candidate_link)
   \<and> try_head (Response 403) candidate_link = Inr candidate_link
   \<and> try_head OtherException candidate_link = Inl RequestException
   \<and> map_of candidate_invalid_first ''bad'' = Some (JBool False)
   \<and> map_of candidate_invalid_first ''urls'' =
       Some (JArr ([] @ JStr ''example.com/page'' # [JStr ''http://dead.example'']))
   \<and> example_net (JStr ''example.com/page'') = OtherException
   \<and> check_urls_in_tweet example_net (JObj candidate_invalid_first) [JStr ''http://earlier'']
       = ([JStr ''http://earlier'', JStr ''example.com/page''], Inl RequestException)"
proof -
  have b: "map_of candidate_invalid_first ''bad'' = Some (JBool False)"
    and u: "map_of candidate_invalid_first ''urls'' =
       Some (JArr ([] @ JStr ''example.com/page'' # [JStr ''http://dead.example'']))"
    by (simp_all add: candidate_invalid_first_def)
  have n: "example_net (JStr ''example.com/page'') = OtherException"
    by (simp add: example_net_def)
  note raises = try_head_verdict [of OtherException candidate_invalid_first example_net
      "[JStr ''http://earlier'']", THEN conjunct2, rule_format, OF b u refl _ n]
  have r: "check_urls_in_tweet example_net (JObj candidate_invalid_first) [JStr ''http://earlier'']
       = ([JStr ''http://earlier'', JStr ''example.com/page''], Inl RequestException)"
    using raises by simp
  from try_head_verdict [of "Response 404" candidate_link, THEN conjunct1]
    try_head_verdict [of "Response 403" candidate_link, THEN conjunct1]
    try_head_verdict [of OtherException candidate_link, THEN conjunct1] b u n r
  show ?thesis by (simp add: UrlProbe_spec_def)
qed

text \<open>
  A URL that \<^verbatim>\<open>requests\<close> rejects is an outcome other than the three named ones,
  which the specification counts as Alive; the code returns no candidate for it.
\<close>

theorem uncaught_exception_counterexample:
  "UrlProbe_spec (example_net (JStr ''example.com/page'')) = Alive \<and>
   check_urls_in_tweet example_net
     (JObj [(''urls'', JArr [JStr ''example.com/page'']), (''bad'', JBool False)]) []
   = ([JStr ''example.com/page''], Inl RequestException)"
  by (simp add: check_urls_in_tweet_def example_net_def UrlProbe_spec_def)

text \<open>
  C1, as the code has it. Take a candidate whose \<^verbatim>\<open>bad\<close> is false on entry and
  whose \<^verbatim>\<open>urls\<close> is a list. When every request before the first Dead URL ends in
  a response, a timeout or a connection error, \<^verbatim>\<open>check_urls_in_tweet\<close> returns
  the candidate, its \<^verbatim>\<open>bad\<close> is true iff some URL of the list is Dead (so it is
  false when every URL is Alive), and the requests it sends are, in list order, the
  Alive URLs before the first Dead one and then that Dead one: no URL after the first
  Dead one is requested. When the loop reaches a URL whose request raises another
  exception, with only Alive answers before it, the exception leaves the function: the
  requests sent are the URLs up to that one, and no candidate is returned, also when a
  later URL of the list is Dead.
\<close>

theorem check_urls_in_tweet_first_dead:
  assumes "map_of kvs ''bad'' = Some (JBool False)"
    and "map_of kvs ''urls'' = Some (JArr us)"
  shows "((\<forall>u\<in>set (takeWhile (\<lambda>u. UrlProbe_spec (head u) = Alive) us).
             head u \<noteq> OtherException) \<longrightarrow>
          (\<exists>kvs'. check_urls_in_tweet head (JObj kvs) sent =
             (sent @ takeWhile (\<lambda>u. UrlProbe_spec (head u) = Alive) us
                   @ take 1 (dropWhile (\<lambda>u. UrlProbe_spec (head u) = Alive) us),
              Inr (JObj kvs'))
           \<and> map_of kvs' ''bad'' = Some (JBool (\<exists>u\<in>set us. UrlProbe_spec (head u) = Dead))))
       \<and> (\<forall>pre u post. us = pre @ u # post \<longrightarrow>
            (\<forall>v\<in>set pre. UrlProbe_spec (head v) = Alive \<and> head v \<noteq> OtherException) \<longrightarrow>
            head u = OtherException \<longrightarrow>
            check_urls_in_tweet head (JObj kvs) sent = (sent @ pre @ [u], Inl RequestException))"
proof (intro conjI allI impI)
  assume "\<forall>u\<in>set (takeWhile (\<lambda>u. UrlProbe_spec (head u) = Alive) us). head u \<noteq> OtherException"
  from check_loop_reached [OF assms(1) this, of sent] assms
  show "\<exists>kvs'. check_urls_in_tweet head (JObj kvs) sent =
             (sent @ takeWhile (\<lambda>u. UrlProbe_spec (head u) = Alive) us
                   @ take 1 (dropWhile (\<lambda>u. UrlProbe_spec (head u) = Alive) us),
              Inr (JObj kvs'))
           \<and> map_of kvs' ''bad'' = Some (JBool (\<exists>u\<in>set us. UrlProbe_spec (head u) = Dead))"
    by (auto simp: check_urls_in_tweet_def map_of_py_setitem)
next
  fix pre u post
  assume "us = pre @ u # post"
    and "\<forall>v\<in>set pre. UrlProbe_spec (head v) = Alive \<and> head v \<noteq> OtherException"
    and "head u = OtherException"
  with check_loop_raises [OF assms(1), of pre head u post sent] assms(2)
  show "check_urls_in_tweet head (JObj kvs) sent = (sent @ pre @ [u], Inl RequestException)"
    by (simp add: check_urls_in_tweet_def)
qed

theorem check_urls_in_tweet_first_dead_witness:
  "map_of candidate_three ''bad'' = Some (JBool False)
   \<and> map_of candidate_three ''urls'' =
       Some (JArr [JStr ''http://alive.example'', JStr ''http://slow.example'',
                   JStr ''http://dead.example''])
   \<and> takeWhile (\<lambda>u. UrlProbe_spec (example_net u) = Alive)
         [JStr ''http://alive.example'', JStr ''http://slow.example'',
          JStr ''http://dead.example''] = [JStr ''http://alive.example'']
   \<and> example_net (JStr ''http://alive.example'') \<noteq> OtherException
   \<and> check_urls_in_tweet example_net (JObj candidate_three) [] =
       ([JStr ''http://alive.example'', JStr ''http://slow.example''],
        Inr (JObj (py_setitem ''bad'' (JBool True) candidate_three)))
   \<and> map_of candidate_invalid_second ''bad'' = Some (JBool False)
   \<and> map_of candidate_invalid_second ''urls'' =
       Some (JArr ([JStr ''http://alive.example''] @ JStr ''example.com/page''
                     # [JStr ''http://dead.example'']))
   \<and> UrlProbe_spec (example_net (JStr ''http://alive.example'')) = Alive
   \<and> example_net (JStr ''example.com/page'') = OtherException
   \<and> check_urls_in_tweet example_net (JObj candidate_invalid_second) [] =
       ([JStr ''http://alive.example'', JStr ''example.com/page''], Inl RequestException)"
proof -
  have a: "map_of candidate_three ''bad'' = Some (JBool False)"
    and b: "map_of candidate_three ''urls'' =
       Some (JArr [JStr ''http://alive.example'', JStr ''http://slow.example'',
                   JStr ''http://dead.example''])"
    by (simp_all add: candidate_three_def)
  have c: "map_of candidate_invalid_second ''bad'' = Some (JBool False)"
    and d: "map_of candidate_invalid_second ''urls'' =
       Some (JArr ([JStr ''http://alive.example''] @ JStr ''example.com/page''
                     # [JStr ''http://dead.example'']))"
    by (simp_all add: candidate_invalid_second_def)
  have n: "UrlProbe_spec (example_net (JStr ''http://alive.example'')) = Alive"
    "example_net (JStr ''http://alive.example'') \<noteq> OtherException"
    "example_net (JStr ''example.com/page'') = OtherException"
    by (simp_all add: example_net_def UrlProbe_spec_def)
  have t: "takeWhile (\<lambda>u. UrlProbe_spec (example_net u) = Alive)
         [JStr ''http://alive.example'', JStr ''http://slow.example'',
          JStr ''http://dead.example''] = [JStr ''http://alive.example'']"
    by (simp add: example_net_def UrlProbe_spec_def)
  have r: "check_urls_in_tweet example_net (JObj candidate_three) [] =
       ([JStr ''http://alive.example'', JStr ''http://slow.example''],
        Inr (JObj (py_setitem ''bad'' (JBool True) candidate_three)))"
    by (simp add: candidate_three_def example_net_def check_urls_in_tweet_def bad_status_def)
  note returns = check_urls_in_tweet_first_dead [OF a b, of example_net "[]", THEN conjunct1]
  note raises = check_urls_in_tweet_first_dead [OF c d, of example_net "[]", THEN conjunct2,
      rule_format, of "[JStr ''http://alive.example'']" "JStr ''example.com/page''"
      "[JStr ''http://dead.example'']"]
  from n have "check_urls_in_tweet example_net (JObj candidate_invalid_second) [] =
       ([JStr ''http://alive.example'', JStr ''example.com/page''], Inl RequestException)"
    using raises by simp
  with returns a b c d n t r show ?thesis by simp
qed

text \<open>
  The second URL of this candidate is Dead, but the request for the first one raises:
  no candidate with \<^verbatim>\<open>bad\<close> true is returned.
\<close>

theorem first_dead_counterexample:
  "map_of candidate_invalid_first ''bad'' = Some (JBool False)
   \<and> UrlProbe_spec (example_net (JStr ''http://dead.example'')) = Dead
   \<and> check_urls_in_tweet example_net (JObj candidate_invalid_first) []
       = ([JStr ''example.com/page''], Inl RequestException)"
  by (simp add: check_urls_in_tweet_def example_net_def UrlProbe_spec_def
      candidate_invalid_first_def)

section \<open>What the loop leaves alone\<close>

lemma check_loop_frame:
  "check_loop head us kvs sent = (sent', Inr t') \<Longrightarrow>
   \<exists>kvs'. t' = JObj kvs' \<and> (\<forall>k. k \<noteq> ''bad'' \<longrightarrow> map_of kvs' k = map_of kvs k)
     \<and> (map_of kvs ''bad'' \<noteq> None \<longrightarrow> map fst kvs' = map fst kvs)"
proof (induction us arbitrary: kvs sent)
  case Nil
  then show ?case by auto
next
  case (Cons u us)
  from Cons.prems obtain kvs1 b where th: "try_head (head u) kvs = Inr kvs1"
    and b: "map_of kvs1 ''bad'' = Some b"
    and rest: "if truthy b then t' = JObj kvs1
               else check_loop head us kvs1 (sent @ [u]) = (sent', Inr t')"
    by (auto split: sum.splits option.splits if_splits)
  note fr = try_head_frame [OF th]
  show ?case
  proof (cases "truthy b")
    case True
    with rest fr show ?thesis by auto
  next
    case False
    with rest have "check_loop head us kvs1 (sent @ [u]) = (sent', Inr t')" by simp
    from Cons.IH [OF this] obtain kvs' where "t' = JObj kvs'"
      "\<forall>k. k \<noteq> ''bad'' \<longrightarrow> map_of kvs' k = map_of kvs1 k"
      "map_of kvs1 ''bad'' \<noteq> None \<longrightarrow> map fst kvs' = map fst kvs1" by blast
    with fr b show ?thesis by auto
  qed
qed

lemma check_loop_returns:
  assumes "map_of kvs ''bad'' = Some b" and "\<forall>u\<in>set us. head u \<noteq> OtherException"
  shows "\<exists>t'. snd (check_loop head us kvs sent) = Inr t'"
  using assms
proof (induction us arbitrary: kvs sent b)
  case Nil
  then show ?case by simp
next
  case (Cons u us)
  then have "head u \<noteq> OtherException" by simp
  from try_head_classified [OF this, of kvs]
  obtain kvs1 where th: "try_head (head u) kvs = Inr kvs1" by blast
  from try_head_frame [OF th] Cons.prems(1) obtain b1 where b1: "map_of kvs1 ''bad'' = Some b1"
    by auto
  from Cons.IH [OF b1, of "sent @ [u]"] Cons.prems(2)
  have "\<exists>t'. snd (check_loop head us kvs1 (sent @ [u])) = Inr t'" by simp
  with th b1 show ?case by simp
qed

text \<open>
  C9. For every candidate with a list \<^verbatim>\<open>urls\<close> and a key \<^verbatim>\<open>bad\<close>, whatever
  \<^verbatim>\<open>check_urls_in_tweet\<close> returns is a dictionary with the same keys in the same
  order and the same value under every key but \<^verbatim>\<open>bad\<close>: \<^verbatim>\<open>id\<close>,
  \<^verbatim>\<open>created_at\<close>, \<^verbatim>\<open>text\<close> and \<^verbatim>\<open>urls\<close> are those of the input. It does
  return when every request ends in a response, a timeout or a connection error.
\<close>

theorem check_urls_in_tweet_frame:
  assumes "map_of kvs ''urls'' = Some (JArr us)"
    and "map_of kvs ''bad'' = Some b"
  shows "(\<forall>t'. snd (check_urls_in_tweet head (JObj kvs) sent) = Inr t' \<longrightarrow>
            (\<exists>kvs'. t' = JObj kvs' \<and> map fst kvs' = map fst kvs
               \<and> (\<forall>k. k \<noteq> ''bad'' \<longrightarrow> map_of kvs' k = map_of kvs k)))
         \<and> ((\<forall>u\<in>set us. head u \<noteq> OtherException) \<longrightarrow>
              (\<exists>t'. snd (check_urls_in_tweet head (JObj kvs) sent) = Inr t'))"
proof (intro conjI allI impI)
  fix t'
  assume "snd (check_urls_in_tweet head (JObj kvs) sent) = Inr t'"
  with assms have "check_loop head us kvs sent = (fst (check_loop head us kvs sent), Inr t')"
    by (simp add: check_urls_in_tweet_def prod_eq_iff)
  from check_loop_frame [OF this] assms(2)
  show "\<exists>kvs'. t' = JObj kvs' \<and> map fst kvs' = map fst kvs
               \<and> (\<forall>k. k \<noteq> ''bad'' \<longrightarrow> map_of kvs' k = map_of kvs k)"
    by auto
next
  assume "\<forall>u\<in>set us. head u \<noteq> OtherException"
  from check_loop_returns [OF assms(2) this, of sent] assms(1)
  show "\<exists>t'. snd (check_urls_in_tweet head (JObj kvs) sent) = Inr t'"
    by (simp add: check_urls_in_tweet_def)
qed

theorem check_urls_in_tweet_frame_witness:
  "map_of candidate_three ''urls'' =
       Some (JArr [JStr ''http://alive.example'', JStr ''http://slow.example'',
                   JStr ''http://dead.example''])
   \<and> map_of candidate_three ''bad'' = Some (JBool False)
   \<and> list_all (\<lambda>u. example_net u \<noteq> OtherException)
         [JStr ''http://alive.example'', JStr ''http://slow.example'',
          JStr ''http://dead.example'']
   \<and> snd (check_urls_in_tweet example_net (JObj candidate_three) [])
       = Inr (JObj (py_setitem ''bad'' (JBool True) candidate_three))
   \<and> map fst (py_setitem ''bad'' (JBool True) candidate_three) = map fst candidate_three
   \<and> list_all (\<lambda>k. map_of (py_setitem ''bad'' (JBool True) candidate_three) k
                      = map_of candidate_three k)
         [''id'', ''created_at'', ''text'', ''urls'']"
proof -
  have r: "snd (check_urls_in_tweet example_net (JObj candidate_three) [])
       = Inr (JObj (py_setitem ''bad'' (JBool True) candidate_three))"
    by (simp add: candidate_three_def example_net_def check_urls_in_tweet_def bad_status_def)
  have u: "map_of candidate_three ''urls'' =
       Some (JArr [JStr ''http://alive.example'', JStr ''http://slow.example'',
                   JStr ''http://dead.example''])"
    and b: "map_of candidate_three ''bad'' = Some (JBool False)"
    by (simp_all add: candidate_three_def)
  have c: "\<forall>u\<in>set [JStr ''http://alive.example'', JStr ''http://slow.example'',
                 JStr ''http://dead.example'']. example_net u \<noteq> OtherException"
    by (simp add: example_net_def)
  from check_urls_in_tweet_frame [OF u b, of example_net "[]"] r u b c
  show ?thesis by (auto simp: list_all_iff)
qed

section \<open>A candidate that is bad on entry\<close>

lemma check_loop_bad_on_entry:
  assumes "map_of kvs ''bad'' = Some (JBool True)"
  shows "check_loop head us kvs sent =
     (case us of
        [] \<Rightarrow> (sent, Inr (JObj kvs))
      | u # _ \<Rightarrow> (sent @ [u],
                   if head u = OtherException then Inl RequestException else Inr (JObj kvs)))"
proof (cases us)
  case Nil
  then show ?thesis by simp
next
  case (Cons u us')
  with assms show ?thesis
    by (cases "head u") (simp_all add: py_setitem_same)
qed

text \<open>
  C10. For every candidate whose \<^verbatim>\<open>bad\<close> is true on entry, whatever
  \<^verbatim>\<open>check_urls_in_tweet\<close> returns has \<^verbatim>\<open>bad\<close> true, for every outcome of the
  requests. It returns the candidate as it was when the list of URLs is empty or the
  request for the first URL ends in a response, a timeout or a connection error.
\<close>

theorem check_urls_in_tweet_keeps_bad:
  assumes "map_of kvs ''bad'' = Some (JBool True)"
    and "map_of kvs ''urls'' = Some (JArr us)"
  shows "(\<forall>t'. snd (check_urls_in_tweet head (JObj kvs) sent) = Inr t'
             \<longrightarrow> py_getitem t' ''bad'' = Inr (JBool True))
         \<and> ((\<forall>u\<in>set (take 1 us). head u \<noteq> OtherException)
             \<longrightarrow> snd (check_urls_in_tweet head (JObj kvs) sent) = Inr (JObj kvs))"
  using assms check_loop_bad_on_entry [OF assms(1), of head us sent]
  by (cases us) (auto simp: check_urls_in_tweet_def split: if_splits)

theorem check_urls_in_tweet_keeps_bad_witness:
  "map_of candidate_marked ''bad'' = Some (JBool True)
   \<and> map_of candidate_marked ''urls'' =
       Some (JArr [JStr ''http://alive.example'', JStr ''http://dead.example''])
   \<and> take 1 [JStr ''http://alive.example'', JStr ''http://dead.example'']
       = [JStr ''http://alive.example'']
   \<and> example_net (JStr ''http://alive.example'') \<noteq> OtherException
   \<and> check_urls_in_tweet example_net (JObj candidate_marked) [] =
       ([JStr ''http://alive.example''], Inr (JObj candidate_marked))
   \<and> py_getitem (JObj candidate_marked) ''bad'' = Inr (JBool True)"
  using check_urls_in_tweet_keeps_bad [of candidate_marked
      "[JStr ''http://alive.example'', JStr ''http://dead.example'']" example_net "[]"]
  by (simp add: candidate_marked_def example_net_def check_urls_in_tweet_def bad_status_def)

section \<open>The urls of a candidate through the stages\<close>

lemma check_urls_in_tweet_result:
  assumes "snd (check_urls_in_tweet head c sent) = Inr r"
  shows "\<exists>kvs kvs'. c = JObj kvs \<and> r = JObj kvs'
           \<and> (\<forall>k. k \<noteq> ''bad'' \<longrightarrow> map_of kvs' k = map_of kvs k)"
proof -
  from assms obtain kvs us urls where c: "c = JObj kvs"
    and "py_getitem c ''urls'' = Inr us" and "py_iter us = Inr urls"
    and "snd (check_loop head urls kvs sent) = Inr r"
    by (cases c) (auto simp: check_urls_in_tweet_def split: sum.splits option.splits)
  then have "check_loop head urls kvs sent = (fst (check_loop head urls kvs sent), Inr r)"
    by (metis prod.collapse)
  from check_loop_frame [OF this] c show ?thesis by blast
qed

lemma check_urls_in_tweet_nonempty:
  assumes "snd (check_urls_in_tweet head c sent) = Inr r" and "nonempty_urls c"
  shows "nonempty_urls r"
proof -
  from check_urls_in_tweet_result [OF assms(1)] obtain kvs kvs' where "c = JObj kvs"
    "r = JObj kvs'" "map_of kvs' ''urls'' = map_of kvs ''urls''" by auto
  with assms(2) show ?thesis by (simp add: nonempty_urls_def)
qed

lemma bad_tweets_subset: "bad_tweets result = Inr selected \<Longrightarrow> set selected \<subseteq> set result"
  by (induction result arbitrary: selected) (auto split: sum.splits if_splits)

text \<open>
  C8. Every candidate that \<^verbatim>\<open>filter_tweets_with_urls\<close> returns has a non-empty list
  \<^verbatim>\<open>urls\<close>. So has every result that \<^verbatim>\<open>check_urls_in_tweet\<close> returns for one of
  these candidates, in whatever order the results arrive, and so has every tweet the
  selection of the bad ones keeps.
\<close>

theorem candidate_urls_nonempty:
  assumes "filter_tweets_with_urls tweets = Inr cands"
    and "\<forall>r\<in>set result. \<exists>c\<in>set cands. \<exists>sent. snd (check_urls_in_tweet head c sent) = Inr r"
    and "bad_tweets result = Inr selected"
  shows "(\<forall>c\<in>set cands. nonempty_urls c) \<and> (\<forall>r\<in>set result. nonempty_urls r)
         \<and> (\<forall>t\<in>set selected. nonempty_urls t)"
proof -
  have 1: "\<forall>c\<in>set cands. nonempty_urls c"
    using filter_tweets_with_urls_nonempty [OF assms(1)] .
  have 2: "\<forall>r\<in>set result. nonempty_urls r"
    using assms(2) 1 by (blast intro: check_urls_in_tweet_nonempty)
  from bad_tweets_subset [OF assms(3)] 2 have "\<forall>t\<in>set selected. nonempty_urls t" by blast
  with 1 2 show ?thesis by simp
qed

theorem candidate_urls_nonempty_witness:
  "filter_tweets_with_urls [post_link, post_plain] = Inr [JObj candidate_link]
   \<and> snd (check_urls_in_tweet example_net (JObj candidate_link) [])
       = Inr (JObj (py_setitem ''bad'' (JBool True) candidate_link))
   \<and> bad_tweets [JObj (py_setitem ''bad'' (JBool True) candidate_link)]
       = Inr [JObj (py_setitem ''bad'' (JBool True) candidate_link)]
   \<and> nonempty_urls (JObj candidate_link)
   \<and> nonempty_urls (JObj (py_setitem ''bad'' (JBool True) candidate_link))"
proof -
  have a: "filter_tweets_with_urls [post_link, post_plain] = Inr [JObj candidate_link]"
    by (simp add: post_plain_def post_link_def candidate_link_def filter_tweets_with_urls_def
        contains_url_def new_entry_def)
  have r: "snd (check_urls_in_tweet example_net (JObj candidate_link) [])
       = Inr (JObj (py_setitem ''bad'' (JBool True) candidate_link))"
    by (simp add: candidate_link_def check_urls_in_tweet_def example_net_def bad_status_def)
  then have b: "\<forall>r\<in>set [JObj (py_setitem ''bad'' (JBool True) candidate_link)].
        \<exists>c\<in>set [JObj candidate_link]. \<exists>sent.
          snd (check_urls_in_tweet example_net c sent) = Inr r"
    by auto
  have c: "bad_tweets [JObj (py_setitem ''bad'' (JBool True) candidate_link)]
       = Inr [JObj (py_setitem ''bad'' (JBool True) candidate_link)]"
    by (simp add: candidate_link_def)
  from candidate_urls_nonempty [OF a b c] a r c show ?thesis by simp
qed

section \<open>A malformed line in the dump\<close>

lemma load_loop_values_prefix:
  assumes "\<forall>s\<in>set pre. line_value loads s \<noteq> None"
  shows "load_loop loads (pre @ rest) tweets =
           load_loop loads rest (tweets @ List.map_filter (line_value loads) pre)"
  using assms
proof (induction pre arbitrary: tweets)
  case Nil
  then show ?case by (simp add: List.map_filter_simps)
next
  case (Cons s pre)
  then obtain l v where "s = Line l" "loads l = Parsed v"
    by (cases s) (auto split: loads_outcome.splits)
  with Cons show ?case by (simp add: List.map_filter_simps)
qed

text \<open>
  C6, as the code has it. When the dump can be opened and its first line that is not
  well-formed is a malformed (non-JSON) line, \<^verbatim>\<open>load_tweets_from_file\<close> prints
  one message and stops reading: it returns the values of the lines before that line,
  in order, and no line after it is parsed. When every line is well-formed it prints
  nothing and returns the values of all lines. When, before any malformed line,
  reading a line or parsing it raises an exception other than
  \<^verbatim>\<open>JSONDecodeError\<close>, that exception leaves the function and no list is
  returned.
\<close>

theorem load_tweets_from_file_stops:
  assumes "fs filename = Opened steps"
  shows "(\<forall>pre l post msg. steps = pre @ Line l # post \<longrightarrow>
            (\<forall>s\<in>set pre. line_value loads s \<noteq> None) \<longrightarrow> loads l = JSONDecodeError msg \<longrightarrow>
            load_tweets_from_file loads fs filename =
              ([py_print [''Cannot parse JSON-file: '', msg]],
               Inr (List.map_filter (line_value loads) pre)))
       \<and> ((\<forall>s\<in>set steps. line_value loads s \<noteq> None) \<longrightarrow>
            load_tweets_from_file loads fs filename =
              ([], Inr (List.map_filter (line_value loads) steps)))
       \<and> (\<forall>pre s post e. steps = pre @ s # post \<longrightarrow>
            (\<forall>s\<in>set pre. line_value loads s \<noteq> None) \<longrightarrow> step_raises loads s = Some e \<longrightarrow>
            load_tweets_from_file loads fs filename = ([], Inl e))"
proof (intro conjI allI impI)
  fix pre l post msg
  assume "steps = pre @ Line l # post" "\<forall>s\<in>set pre. line_value loads s \<noteq> None"
    "loads l = JSONDecodeError msg"
  with assms load_loop_values_prefix [of pre loads "Line l # post" "[]"]
  show "load_tweets_from_file loads fs filename =
              ([py_print [''Cannot parse JSON-file: '', msg]],
               Inr (List.map_filter (line_value loads) pre))"
    by (simp add: load_tweets_from_file_def)
next
  assume "\<forall>s\<in>set steps. line_value loads s \<noteq> None"
  with assms load_loop_values_prefix [of steps loads "[]" "[]"]
  show "load_tweets_from_file loads fs filename =
              ([], Inr (List.map_filter (line_value loads) steps))"
    by (simp add: load_tweets_from_file_def)
next
  fix pre s post e
  assume "steps = pre @ s # post" "\<forall>s\<in>set pre. line_value loads s \<noteq> None"
    "step_raises loads s = Some e"
  with assms load_loop_values_prefix [of pre loads "s # post" "[]"]
  show "load_tweets_from_file loads fs filename = ([], Inl e)"
    by (cases s) (auto simp: load_tweets_from_file_def split: loads_outcome.splits)
qed

theorem load_tweets_from_file_stops_witness:
  "example_fs ''tweet_dump.json'' = Opened ([Line ''{}''] @ Line ''not json'' # [Line ''[]''])
   \<and> line_value example_loads (Line ''{}'') = Some (JObj [])
   \<and> example_loads ''not json'' = JSONDecodeError ''Expecting value''
   \<and> load_tweets_from_file example_loads example_fs ''tweet_dump.json'' =
       ([''Cannot parse JSON-file:  Expecting value''], Inr [JObj []])
   \<and> example_fs ''deep.json'' = Opened ([Line ''{}''] @ Line ''[[[[[[[['' # [Line ''[]''])
   \<and> step_raises example_loads (Line ''[[[[[[[['') = Some RecursionError
   \<and> load_tweets_from_file example_loads example_fs ''deep.json'' = ([], Inl RecursionError)"
proof -
  have f: "example_fs ''tweet_dump.json'' = Opened ([Line ''{}''] @ Line ''not json'' # [Line ''[]''])"
    and g: "example_fs ''deep.json'' = Opened ([Line ''{}''] @ Line ''[[[[[[[['' # [Line ''[]''])"
    by (simp_all add: example_fs_def)
  have v: "line_value example_loads (Line ''{}'') = Some (JObj [])"
    and m: "example_loads ''not json'' = JSONDecodeError ''Expecting value''"
    and x: "step_raises example_loads (Line ''[[[[[[[['') = Some RecursionError"
    by (simp_all add: example_loads_def)
  note stops = load_tweets_from_file_stops [where fs = example_fs
      and filename = "''tweet_dump.json''" and loads = example_loads, OF f, THEN conjunct1, rule_format,
      of "[Line ''{}'']" "''not json''" "[Line ''[]'']" "''Expecting value''"]
  note raises = load_tweets_from_file_stops [where fs = example_fs
      and filename = "''deep.json''" and loads = example_loads, OF g, THEN conjunct2,
      THEN conjunct2, rule_format,
      of "[Line ''{}'']" "Line ''[[[[[[[[''" "[Line ''[]'']" RecursionError]
  from v m have 1: "load_tweets_from_file example_loads example_fs ''tweet_dump.json'' =
       ([''Cannot parse JSON-file:  Expecting value''], Inr [JObj []])"
    using stops by (simp add: List.map_filter_simps)
  from v x have 2: "load_tweets_from_file example_loads example_fs ''deep.json''
       = ([], Inl RecursionError)"
    using raises by simp
  from f g v m x 1 2 show ?thesis by simp
qed

text \<open>
  The third line of the example dump is well-formed and follows the malformed second
  line; its value is not in the returned list.
\<close>

theorem load_tweets_from_file_counterexample:
  "example_fs ''tweet_dump.json'' = Opened [Line ''{}'', Line ''not json'', Line ''[]'']
   \<and> example_loads ''[]'' = Parsed (JArr [])
   \<and> load_tweets_from_file example_loads example_fs ''tweet_dump.json'' =
       ([''Cannot parse JSON-file:  Expecting value''], Inr [JObj []])"
  by (simp add: load_tweets_from_file_def example_fs_def example_loads_def)

section \<open>The number of workers\<close>

lemma bad_tweets_of_Inr:
  "bad_tweets_of result = Inr selected \<longleftrightarrow>
     (\<forall>x\<in>set result. yields_tweet x) \<and> selected = filter is_bad (map projr result)"
proof (induction result arbitrary: selected)
  case Nil
  then show ?case by auto
next
  case (Cons x result)
  show ?case
  proof (cases x)
    case (Inl e)
    then show ?thesis by (simp add: yields_tweet_def)
  next
    case (Inr t)
    show ?thesis
    proof (cases "py_getitem t ''bad''")
      case (Inl e)
      with Inr show ?thesis by (simp add: yields_tweet_def)
    next
      case b: (Inr b)
      show ?thesis
      proof (cases "bad_tweets_of result")
        case (Inl e)
        with Cons.IH have "\<not> (\<forall>x\<in>set result. yields_tweet x)" by auto
        with Inl Inr b show ?thesis by simp
      next
        case r: (Inr rest)
        with Cons.IH [of rest] Inr b show ?thesis
          by (auto simp: yields_tweet_def is_bad_def)
      qed
    qed
  qed
qed

lemma bad_tweets_of_arrival:
  assumes "mset r1 = mset r2" and "bad_tweets_of r1 = Inr s1"
  shows "\<exists>s2. bad_tweets_of r2 = Inr s2 \<and> mset s2 = mset s1"
proof -
  from assms(1) have "set r1 = set r2" by (rule mset_eq_setD)
  moreover from assms(1) have "mset (filter is_bad (map projr r1)) = mset (filter is_bad (map projr r2))"
    by (metis mset_filter mset_map)
  ultimately show ?thesis using assms(2) by (auto simp: bad_tweets_of_Inr)
qed

text \<open>
  With pools of any two numbers of workers, the results yielded for the same
  candidates are the same up to order, and so are the selected bad tweets.
\<close>

lemma scan_any_worker_count:
  assumes "imap_unordered head k1 cands r1" and "imap_unordered head k2 cands r2"
  shows "mset r1 = mset (map (\<lambda>c. snd (check_urls_in_tweet head c [])) cands)
         \<and> mset r2 = mset r1
         \<and> (\<forall>s1. bad_tweets_of r1 = Inr s1 \<longrightarrow>
              (\<exists>s2. bad_tweets_of r2 = Inr s2 \<and> mset s2 = mset s1))"
  using assms bad_tweets_of_arrival [of r1 r2]
  by (auto simp: imap_unordered_def)

text \<open>
  C5. A number of workers given on the command line, such as
  \<^verbatim>\<open>--processes 1\<close> or \<^verbatim>\<open>--processes 8\<close>, reaches \<^verbatim>\<open>mp.Pool\<close> as a
  string: the pool is not made, \<^verbatim>\<open>TypeError\<close> is raised and there is no scan.
  Without the option the pool has 4 workers and the scan selects from what they
  yield.
\<close>

theorem scan_processes_option:
  "scan (Some ''1'') result = Inl TypeError
   \<and> scan (Some ''8'') result = Inl TypeError
   \<and> scan (Some s) result = Inl TypeError
   \<and> Pool (args_processes None) = Inr 4
   \<and> scan None result = bad_tweets_of result"
  by (simp add: scan_def args_processes_def)

end
